theory Spec2Isabelle
  imports Complex_Main
begin

section \<open>Scalar advection-diffusion with serial theta timestepping\<close>

text \<open>
  The development follows the notebook \<^verbatim>\<open>paradiag/advection/serial.ipynb\<close>.
  Python floats are idealised as exact real numbers throughout: rounding is not
  modelled, so every equation below is an equation of exact arithmetic.  A vector
  (a one-dimensional numpy array) is a list of reals; a matrix (a scipy sparse
  matrix, whatever its storage format) is the list of its rows.  All matrices of the
  notebook are square, so the number of rows is also the number of columns.
\<close>

type_synonym vec = "real list"
type_synonym matrix = "real list list"

text \<open>The exceptions of Python, numpy and scipy that the code can raise.\<close>

datatype error = KeyError | IndexError | ValueError | ZeroDivisionError | RuntimeError

subsection \<open>The stencil table\<close>

text \<open>
  \<^verbatim>\<open>gradient_stencil(grad, order)\<close> indexes a dictionary of dictionaries:
  \<^verbatim>\<open>{1: {2: ..., 4: ..., 6: ...}, 2: {...}, 4: {...}}[grad][order]\<close>.
  Each level is an association list here, read with \<^const>\<open>map_of\<close>; a key that is
  absent at either level raises \<^verbatim>\<open>KeyError\<close>.
\<close>

definition stencil_table :: "(int \<times> (int \<times> vec) list) list" where
  "stencil_table =
    [(1, [(2, [-1/2, 0, 1/2]),
          (4, [1/12, -2/3, 0, 2/3, -1/12]),
          (6, [-1/60, 3/20, -3/4, 0, 3/4, -3/20, 1/60])]),
     (2, [(2, [1, -2, 1]),
          (4, [-1/12, 4/3, -5/2, 4/3, -1/12]),
          (6, [1/90, -3/20, 3/2, -49/18, 3/2, -3/20, 1/90])]),
     (4, [(2, [1, -4, 6, -4, 1]),
          (4, [-1/6, 2, -13/2, 28/3, -13/2, 2, -1/6]),
          (6, [7/240, -2/5, 169/60, -122/15, 91/8, -122/15, 169/60, -2/5, 7/240])])]"

definition gradient_stencil :: "int \<Rightarrow> int \<Rightarrow> error + vec" where
  "gradient_stencil grad order =
    (case map_of stencil_table grad of
       None \<Rightarrow> Inl KeyError
     | Some by_order \<Rightarrow>
         (case map_of by_order order of
            None \<Rightarrow> Inl KeyError
          | Some stencil \<Rightarrow> Inr stencil))"

subsection \<open>Matrices from diagonals\<close>

text \<open>
  \<^verbatim>\<open>scipy.sparse.spdiags(data, diags)\<close> with no shape given builds the square matrix
  of size \<^verbatim>\<open>len(data[0])\<close> in diagonal storage: row \<open>k\<close> of \<open>data\<close> is the diagonal
  with offset \<open>diags[k]\<close>, and the entry in row \<open>i\<close> and column \<open>j\<close> is \<open>data[k][j]\<close>
  for the \<open>k\<close> with \<open>diags[k] = j - i\<close> (zero when there is none).  The constructor of
  the diagonal format rejects a number of offsets that differs from the number of
  rows of \<open>data\<close>, and rejects an offset that occurs twice
  (\<^verbatim>\<open>ValueError: offset array contains duplicate values\<close>).
\<close>

definition diag_entry :: "matrix \<Rightarrow> int list \<Rightarrow> nat \<Rightarrow> nat \<Rightarrow> real" where
  "diag_entry data diags i j =
     sum_list (map (\<lambda>(d, row). if d = int j - int i then row ! j else 0) (zip diags data))"

definition spdiags :: "matrix \<Rightarrow> int list \<Rightarrow> error + matrix" where
  "spdiags data diags =
    (case data of
       [] \<Rightarrow> Inl IndexError
     | row0 # _ \<Rightarrow>
         if length data \<noteq> length diags \<or> \<not> distinct diags then Inl ValueError
         else Inr (map (\<lambda>i. map (\<lambda>j. diag_entry data diags i j) [0..<length row0])
                       [0..<length row0]))"

text \<open>
  \<^verbatim>\<open>sparse_circulant(stencil, n)\<close>.  A stencil of one entry gives the diagonal matrix
  \<^verbatim>\<open>spdiags([stencil[0]*np.ones(n)], 0)\<close>.  Otherwise, with \<open>ns = len(stencil)\<close> and
  \<open>noff = (ns-1)//2\<close>, the three slice assignments fill
  \<^verbatim>\<open>pstencil = stencil[noff+1:] ++ stencil ++ stencil[:noff]\<close>; they fit only when
  \<open>ns\<close> is odd (for an empty stencil \<^verbatim>\<open>np.zeros(ns+2*noff)\<close> has a negative
  size, for an even length the slices have different lengths), and numpy raises
  \<^verbatim>\<open>ValueError\<close> when they do not.  \<^verbatim>\<open>np.tile\<close> repeats every entry of \<open>pstencil\<close>
  along a row of length \<open>n\<close>, and the offsets are the three list comprehensions.
\<close>

definition sparse_circulant :: "vec \<Rightarrow> nat \<Rightarrow> error + matrix" where
  "sparse_circulant stencil n =
    (if length stencil = 1 then
       spdiags [map (\<lambda>one. stencil ! 0 * one) (replicate n 1)] [0]
     else
       let ns = length stencil;
           noff = (ns - 1) div 2
       in if even ns then Inl ValueError
          else
            let pstencil = drop (noff + 1) stencil @ stencil @ take noff stencil;
                pdiags = map (\<lambda>c. replicate n c) pstencil;
                offsets = map (\<lambda>i. - int n + 1 + int i) [0..<noff]
                        @ map (\<lambda>i. - int noff + int i) [0..<2 * noff + 1]
                        @ map (\<lambda>i. int n - int noff + int i) [0..<noff]
            in spdiags pdiags offsets)"

text \<open>
  The cell that builds the matrices passes a table entry straight to
  \<^verbatim>\<open>sparse_circulant\<close>, as in
  \<^verbatim>\<open>D = sparse_circulant(gradient_stencil(1, order=2), nx)\<close>: the argument is
  evaluated first, so an exception of the lookup leaves before the assembly starts.
\<close>

definition stencil_matrix :: "int \<Rightarrow> int \<Rightarrow> nat \<Rightarrow> error + matrix" where
  "stencil_matrix grad order n =
    (case gradient_stencil grad order of
       Inl e \<Rightarrow> Inl e
     | Inr stencil \<Rightarrow> sparse_circulant stencil n)"

subsection \<open>Matrix arithmetic\<close>

text \<open>
  \<^verbatim>\<open>A.dot(q)\<close> for a square matrix and a vector; scipy raises \<^verbatim>\<open>ValueError\<close>
  (dimension mismatch) when the length of the vector is not the size of the matrix.
\<close>

definition inner :: "vec \<Rightarrow> vec \<Rightarrow> real" where
  "inner r q = sum_list (map2 (*) r q)"

definition dot :: "matrix \<Rightarrow> vec \<Rightarrow> error + vec" where
  "dot A q = (if length q = length A then Inr (map (\<lambda>r. inner r q) A) else Inl ValueError)"

text \<open>
  Scalar multiple, negation, sum and difference act entry by entry; the operands of
  the notebook's sums have the same shape.  \<^verbatim>\<open>A/c\<close> is computed by scipy as
  \<^verbatim>\<open>A*(1./c)\<close>, and \<^verbatim>\<open>1./c\<close> raises \<^verbatim>\<open>ZeroDivisionError\<close> for a Python float zero.
\<close>

definition scale :: "real \<Rightarrow> matrix \<Rightarrow> matrix" where
  "scale c A = map (map (\<lambda>a. c * a)) A"

definition neg :: "matrix \<Rightarrow> matrix" where
  "neg A = map (map uminus) A"

definition madd :: "matrix \<Rightarrow> matrix \<Rightarrow> matrix" where
  "madd A B = map2 (map2 (+)) A B"

definition msub :: "matrix \<Rightarrow> matrix \<Rightarrow> matrix" where
  "msub A B = map2 (map2 (-)) A B"

definition mdiv :: "matrix \<Rightarrow> real \<Rightarrow> error + matrix" where
  "mdiv A c = (if c = 0 then Inl ZeroDivisionError else Inr (scale (1 / c) A))"

text \<open>
  The spatial residual \<^verbatim>\<open>K = (u/dx)*D - (nu/dx**2)*L\<close>; both quotients are
  quotients of Python numbers and raise \<^verbatim>\<open>ZeroDivisionError\<close> for \<open>dx = 0\<close>.
\<close>

definition spatial_terms :: "real \<Rightarrow> real \<Rightarrow> real \<Rightarrow> matrix \<Rightarrow> matrix \<Rightarrow> error + matrix" where
  "spatial_terms u nu dx D L =
    (if dx = 0 then Inl ZeroDivisionError
     else Inr (msub (scale (u / dx) D) (scale (nu / dx ^ 2) L)))"

subsection \<open>The linear solver\<close>

text \<open>
  \<^verbatim>\<open>scipy.sparse.linalg.factorized(A)\<close> factorises \<open>A\<close> and returns a function that
  solves \<open>A x = rhs\<close> for any right-hand side from the stored factors.  The library
  works on doubles; here it is idealised in exact arithmetic, as every other
  operation is: Gaussian elimination over the reals, where an equation is a row of
  coefficients with its right-hand side, the first equation whose leading coefficient
  is not zero is the pivot, the leading unknown is eliminated from the other
  equations, and the smaller system is solved first.  The stored factors are the
  inverse matrix, computed column by column, and \<^verbatim>\<open>RuntimeError\<close> stands for a
  factorisation that meets no pivot.  The idealisation fails exactly on the matrices
  that are singular over the reals.  The library does not: rounding can cancel a
  pivot of a matrix that is non-singular over the reals, and can leave a pivot where
  the exact matrix has none.  Nothing below is therefore a statement about which
  matrices the library rejects, or about the digits a solve returns; the runs
  evaluated below use matrices far from singular.
\<close>

type_synonym equation = "vec \<times> real"

fun find_pivot :: "equation list \<Rightarrow> (equation \<times> equation list) option" where
  "find_pivot [] = None"
| "find_pivot (e # es) =
     (if hd (fst e) \<noteq> 0 then Some (e, es)
      else (case find_pivot es of
              None \<Rightarrow> None
            | Some (p, rest) \<Rightarrow> Some (p, e # rest)))"

definition eliminate :: "equation \<Rightarrow> equation \<Rightarrow> equation" where
  "eliminate p e =
    (let c = hd (fst e) / hd (fst p)
     in (map2 (\<lambda>a b. a - c * b) (tl (fst e)) (tl (fst p)), snd e - c * snd p))"

fun gauss :: "nat \<Rightarrow> equation list \<Rightarrow> vec option" where
  "gauss 0 es = Some []"
| "gauss (Suc m) es =
     (case find_pivot es of
        None \<Rightarrow> None
      | Some (p, rest) \<Rightarrow>
          (case gauss m (map (eliminate p) rest) of
             None \<Rightarrow> None
           | Some xs \<Rightarrow> Some ((snd p - inner (tl (fst p)) xs) / hd (fst p) # xs)))"

definition unit_vec :: "nat \<Rightarrow> nat \<Rightarrow> vec" where
  "unit_vec n j = map (\<lambda>i. if i = j then 1 else 0) [0..<n]"

definition inverse_columns :: "matrix \<Rightarrow> vec option list" where
  "inverse_columns A = map (\<lambda>j. gauss (length A) (zip A (unit_vec (length A) j))) [0..<length A]"

definition factorized :: "matrix \<Rightarrow> error + matrix" where
  "factorized A =
    (let cols = inverse_columns A
     in if None \<in> set cols then Inl RuntimeError
        else Inr (map (\<lambda>i. map (\<lambda>c. the c ! i) cols) [0..<length A]))"

subsection \<open>The implicit theta system\<close>

text \<open>
  \<^verbatim>\<open>A0 = -M/dt + (1 - theta)*K\<close>, \<^verbatim>\<open>A1 = M/dt + theta*K\<close> and
  \<^verbatim>\<open>A1.solve = spla.factorized(A1.tocsc())\<close>.  The record keeps the two matrices and
  the factors that the closure \<^verbatim>\<open>A1.solve\<close> holds; the unary minus binds tighter
  than the division.
\<close>

record implicit_system =
  A0 :: matrix
  A1 :: matrix
  factors :: matrix

definition implicit_theta :: "matrix \<Rightarrow> matrix \<Rightarrow> real \<Rightarrow> real \<Rightarrow> error + implicit_system" where
  "implicit_theta M K theta dt =
    (case mdiv (neg M) dt of
       Inl e \<Rightarrow> Inl e
     | Inr M0 \<Rightarrow>
         (case mdiv M dt of
            Inl e \<Rightarrow> Inl e
          | Inr M1 \<Rightarrow>
              let a0 = madd M0 (scale (1 - theta) K);
                  a1 = madd M1 (scale theta K)
              in (case factorized a1 of
                    Inl e \<Rightarrow> Inl e
                  | Inr f \<Rightarrow> Inr \<lparr>A0 = a0, A1 = a1, factors = f\<rparr>)))"

text \<open>\<^verbatim>\<open>A1.solve(rhs)\<close> applies the stored factors.\<close>

definition solve :: "implicit_system \<Rightarrow> vec \<Rightarrow> error + vec" where
  "solve sys rhs = dot (factors sys) rhs"

subsection \<open>Time marching\<close>

text \<open>
  \<^verbatim>\<open>q = np.zeros((nt+1, len(qinit))); q[0] = qinit\<close>, then
  \<^verbatim>\<open>for i in range(nt-1): q[i+1] = A1.solve(-A0.dot(q[i]))\<close>.
  The loop runs over the list of indices \<open>[0..<nt - 1]\<close>; for \<open>nt = 0\<close> the Python
  range \<^verbatim>\<open>range(-1)\<close> is empty, as the truncated difference on naturals is.  An
  exception in a step ends the run.
\<close>

definition step :: "implicit_system \<Rightarrow> vec \<Rightarrow> error + vec" where
  "step sys qi =
    (case dot (A0 sys) qi of
       Inl e \<Rightarrow> Inl e
     | Inr r \<Rightarrow> solve sys (map uminus r))"

fun march :: "implicit_system \<Rightarrow> nat list \<Rightarrow> vec list \<Rightarrow> error + vec list" where
  "march sys [] q = Inr q"
| "march sys (i # is) q =
     (case step sys (q ! i) of
        Inl e \<Rightarrow> Inl e
      | Inr x \<Rightarrow> march sys is (q[Suc i := x]))"

definition timeseries :: "implicit_system \<Rightarrow> vec \<Rightarrow> nat \<Rightarrow> error + vec list" where
  "timeseries sys qinit nt =
     march sys [0..<nt - 1] ((replicate (nt + 1) (replicate (length qinit) 0))[0 := qinit])"

text \<open>
  The cells of the notebook in sequence, for a mesh of \<open>nx\<close> points: mass, advection
  and diffusion matrices, spatial residual, implicit system, time series.
\<close>

definition serial ::
  "nat \<Rightarrow> real \<Rightarrow> real \<Rightarrow> real \<Rightarrow> real \<Rightarrow> real \<Rightarrow> vec \<Rightarrow> nat \<Rightarrow> error + vec list" where
  "serial nx u nu dx theta dt qinit nt =
    (case sparse_circulant [1] nx of
       Inl e \<Rightarrow> Inl e
     | Inr M \<Rightarrow>
    (case stencil_matrix 1 2 nx of
       Inl e \<Rightarrow> Inl e
     | Inr D \<Rightarrow>
    (case stencil_matrix 2 2 nx of
       Inl e \<Rightarrow> Inl e
     | Inr L \<Rightarrow>
    (case spatial_terms u nu dx D L of
       Inl e \<Rightarrow> Inl e
     | Inr K \<Rightarrow>
    (case implicit_theta M K theta dt of
       Inl e \<Rightarrow> Inl e
     | Inr sys \<Rightarrow> timeseries sys qinit nt)))))"

subsection \<open>Cyclic shift\<close>


subsection \<open>The entries of an assembled matrix\<close>

text \<open>
  For a stencil of \<open>2k + 1\<close> entries, \<open>wrap_coeff stencil n \<delta>\<close> collects what the
  three groups of diagonals contribute at the offset \<open>\<delta>\<close> of column minus row: the
  lower wrap-around (offsets \<open>-n+1 .. -n+k\<close>), the band (offsets \<open>-k .. k\<close>) and the
  upper wrap-around (offsets \<open>n-k .. n-1\<close>).
\<close>

definition wrap_coeff :: "vec \<Rightarrow> nat \<Rightarrow> int \<Rightarrow> real" where
  "wrap_coeff stencil n \<delta> =
    (let k = int ((length stencil - 1) div 2)
     in (if - int n + 1 \<le> \<delta> \<and> \<delta> \<le> - int n + k then stencil ! nat (k + \<delta> + int n) else 0)
      + (if - k \<le> \<delta> \<and> \<delta> \<le> k then stencil ! nat (k + \<delta>) else 0)
      + (if int n - k \<le> \<delta> \<and> \<delta> \<le> int n - 1 then stencil ! nat (k + \<delta> - int n) else 0))"

definition circulant_of :: "(int \<Rightarrow> real) \<Rightarrow> nat \<Rightarrow> matrix" where
  "circulant_of c n = map (\<lambda>i. map (\<lambda>j. c (int j - int i)) [0..<n]) [0..<n]"

definition periodic :: "(int \<Rightarrow> real) \<Rightarrow> nat \<Rightarrow> bool" where
  "periodic c n \<longleftrightarrow> (\<forall>\<delta>. - int n < \<delta> \<and> \<delta> < int n \<longrightarrow> c \<delta> = c (\<delta> mod int n))"

subsection \<open>Shapes and non-singular matrices\<close>

text \<open>
  A square matrix of size \<open>n\<close> has \<open>n\<close> rows of length \<open>n\<close>.  A square matrix is
  non-singular when the zero vector is the only vector that it maps to zero.
\<close>

definition square :: "matrix \<Rightarrow> nat \<Rightarrow> bool" where
  "square A n \<longleftrightarrow> length A = n \<and> (\<forall>r \<in> set A. length r = n)"

definition nonsingular :: "matrix \<Rightarrow> bool" where
  "nonsingular A \<longleftrightarrow>
     (\<forall>x. dot A x = Inr (replicate (length A) 0) \<longrightarrow> x = replicate (length A) 0)"

text \<open>
  A system of \<open>m\<close> equations in \<open>m\<close> unknowns, as the elimination expects it.
\<close>

definition system_ok :: "nat \<Rightarrow> equation list \<Rightarrow> bool" where
  "system_ok m es \<longleftrightarrow> length es = m \<and> (\<forall>e \<in> set es. length (fst e) = m)"

section \<open>Properties\<close>

subsection \<open>The stencil table\<close>

lemma gradient_stencil_values:
  "gradient_stencil 1 2 = Inr [-1/2, 0, 1/2]"
  "gradient_stencil 1 4 = Inr [1/12, -2/3, 0, 2/3, -1/12]"
  "gradient_stencil 1 6 = Inr [-1/60, 3/20, -3/4, 0, 3/4, -3/20, 1/60]"
  "gradient_stencil 2 2 = Inr [1, -2, 1]"
  "gradient_stencil 2 4 = Inr [-1/12, 4/3, -5/2, 4/3, -1/12]"
  "gradient_stencil 2 6 = Inr [1/90, -3/20, 3/2, -49/18, 3/2, -3/20, 1/90]"
  "gradient_stencil 4 2 = Inr [1, -4, 6, -4, 1]"
  "gradient_stencil 4 4 = Inr [-1/6, 2, -13/2, 28/3, -13/2, 2, -1/6]"
  "gradient_stencil 4 6 =
     Inr [7/240, -2/5, 169/60, -122/15, 91/8, -122/15, 169/60, -2/5, 7/240]"
  by (simp_all add: gradient_stencil_def stencil_table_def)

lemma gradient_stencil_missing:
  "\<not> (grad \<in> {1, 2, 4} \<and> order \<in> {2, 4, 6}) \<Longrightarrow> gradient_stencil grad order = Inl KeyError"
  by (auto simp add: gradient_stencil_def stencil_table_def)

lemma supported_cases:
  assumes "grad \<in> {1, 2, 4}" and "order \<in> {2, 4, 6}"
  obtains "grad = (1::int)" "order = (2::int)" | "grad = 1" "order = 4" | "grad = 1" "order = 6"
    | "grad = 2" "order = 2" | "grad = 2" "order = 4" | "grad = 2" "order = 6"
    | "grad = 4" "order = 2" | "grad = 4" "order = 4" | "grad = 4" "order = 6"
  using assms by auto

text \<open>
  Claim C3.  The table holds fixed coefficients: the first derivative at second order
  of accuracy is \<open>[-1/2, 0, 1/2]\<close>, the second derivative at second order of accuracy
  is \<open>[1, -2, 1]\<close>.
\<close>

theorem C3_literal_stencils:
  "gradient_stencil 1 2 = Inr [-1/2, 0, 1/2] \<and> gradient_stencil 2 2 = Inr [1, -2, 1]"
  by (simp add: gradient_stencil_def stencil_table_def)

text \<open>
  Claim C4.  A pair of derivative order and accuracy order outside
  \<open>{1, 2, 4} \<times> {2, 4, 6}\<close> makes the lookup fail (Python's \<^verbatim>\<open>KeyError\<close> is the
  unsupported-stencil failure), and the failure reaches the caller before any matrix is
  assembled from the stencil.
\<close>

theorem C4_unsupported:
  "\<not> (grad \<in> {1, 2, 4} \<and> order \<in> {2, 4, 6}) \<Longrightarrow>
     gradient_stencil grad order = Inl KeyError \<and> stencil_matrix grad order n = Inl KeyError"
  by (simp add: stencil_matrix_def gradient_stencil_missing)

theorem C4_witness:
  "\<not> ((3::int) \<in> {1, 2, 4} \<and> (2::int) \<in> {2, 4, 6}) \<and>
   gradient_stencil 3 2 = Inl KeyError \<and> stencil_matrix 3 2 8 = Inl KeyError"
  using C4_unsupported [of 3 2 8] by simp

text \<open>
  Claim C5.  Every stencil of the table, for a derivative order in \<open>{1, 2, 4}\<close> and an
  accuracy order in \<open>{2, 4, 6}\<close>, sums to zero; in exact arithmetic the sum is exactly
  zero, hence within the tolerance \<open>10\<^sup>-\<^sup>1\<^sup>2\<close>.
\<close>

theorem C5_zero_sum:
  assumes "grad \<in> {1, 2, 4}" and "order \<in> {2, 4, 6}"
  shows "\<exists>s. gradient_stencil grad order = Inr s \<and> sum_list s = 0 \<and> \<bar>sum_list s\<bar> \<le> 1 / 10 ^ 12"
  using assms(1,2) by (rule supported_cases) (simp_all add: gradient_stencil_values)

theorem C5_witness:
  "(4::int) \<in> {1, 2, 4} \<and> (6::int) \<in> {2, 4, 6} \<and>
   (\<exists>s. gradient_stencil 4 6 = Inr s \<and> sum_list s = 0 \<and> \<bar>sum_list s\<bar> \<le> 1 / 10 ^ 12)"
  using C5_zero_sum [of 4 6] by simp

subsection \<open>Inner products and the diagonal case\<close>

lemma inner_sum:
  assumes "length r = length q"
  shows "inner r q = (\<Sum>j<length q. r ! j * q ! j)"
proof -
  have "inner r q = (\<Sum>j = 0..<length q. map2 (*) r q ! j)"
    unfolding inner_def using assms by (simp add: sum_list_sum_nth)
  also have "\<dots> = (\<Sum>j = 0..<length q. r ! j * q ! j)"
    using assms by (intro sum.cong) simp_all
  finally show ?thesis by (simp add: atLeast0LessThan)
qed

lemma diag_entry_single: "diag_entry [row] [d] i j = (if d = int j - int i then row ! j else 0)"
  by (simp add: diag_entry_def)

lemma sparse_circulant_single:
  "sparse_circulant [c] n = Inr (map (\<lambda>i. map (\<lambda>j. if i = j then c else 0) [0..<n]) [0..<n])"
  by (simp add: sparse_circulant_def spdiags_def diag_entry_single cong: map_cong)

lemma dot_diag:
  assumes "length q = n"
  shows "dot (map (\<lambda>i. map (\<lambda>j. if i = j then c else 0) [0..<n]) [0..<n]) q = Inr (map (\<lambda>x. c * x) q)"
proof -
  have "inner (map (\<lambda>j. if i = j then c else 0) [0..<n]) q = c * q ! i" if "i < n" for i
  proof -
    have "inner (map (\<lambda>j. if i = j then c else 0) [0..<n]) q
        = (\<Sum>j<n. (if i = j then c else 0) * q ! j)"
      using assms by (simp add: inner_sum)
    also have "\<dots> = (\<Sum>j<n. if i = j then c * q ! j else 0)"
      by (intro sum.cong) simp_all
    also have "\<dots> = c * q ! i"
      using that by simp
    finally show ?thesis .
  qed
  then have "map (\<lambda>r. inner r q) (map (\<lambda>i. map (\<lambda>j. if i = j then c else 0) [0..<n]) [0..<n])
      = map (\<lambda>x. c * x) q"
    using assms by (intro nth_equalityI) simp_all
  then show ?thesis
    using assms by (simp add: dot_def)
qed

text \<open>
  Claim C10.  The mass matrix \<^verbatim>\<open>sparse_circulant([1], n)\<close> is the identity matrix of
  size \<open>n\<close>: applied to a vector of length \<open>n\<close> it returns the vector.
\<close>

theorem C10_mass_identity:
  assumes "1 \<le> n" and "length q = n"
  shows "sparse_circulant [1] n = Inr (map (\<lambda>i. map (\<lambda>j. if i = j then 1 else 0) [0..<n]) [0..<n])
       \<and> (\<exists>M. sparse_circulant [1] n = Inr M \<and> dot M q = Inr q)"
  using dot_diag [OF assms(2), of 1] by (simp add: sparse_circulant_single)

theorem C10_witness:
  "(1::nat) \<le> 3 \<and> length [5, 7, 11 :: real] = 3 \<and>
   sparse_circulant [1] 3 = Inr [[1, 0, 0], [0, 1, 0], [0, 0, 1]] \<and>
   (\<exists>M. sparse_circulant [1] 3 = Inr M \<and> dot M [5, 7, 11] = Inr [5, 7, 11])"
proof -
  have h: "(1::nat) \<le> 3" "length [5, 7, 11 :: real] = 3"
    by simp_all
  have eq: "map (\<lambda>i. map (\<lambda>j. if i = j then 1 else 0) [0..<3]) [0..<3]
      = [[1, 0, 0], [0, 1, 0], [0, 0, (1::real)]]"
    by (simp add: upt_rec)
  note c = C10_mass_identity [OF h, unfolded eq]
  show ?thesis
    by (intro conjI) (rule h(1), rule h(2), rule conjunct1 [OF c], rule conjunct2 [OF c])
qed

subsection \<open>Diagonals with constant entries\<close>

lemma block_sum:
  "sum_list (map (\<lambda>(d, c). if d = \<delta> then c else 0)
       (zip (map (\<lambda>i. a + int i) [0..<length xs]) xs))
   = (if a \<le> \<delta> \<and> \<delta> < a + int (length xs) then xs ! nat (\<delta> - a) else (0::real))"
proof (induction xs rule: rev_induct)
  case Nil
  then show ?case by simp
next
  case (snoc x xs)
  have "nat (\<delta> - a) < length xs" if "a \<le> \<delta>" "\<delta> < a + int (length xs)"
    using that by linarith
  moreover have "nat (\<delta> - a) = length xs" if "\<delta> = a + int (length xs)"
    using that by simp
  ultimately show ?case
    using snoc.IH by (auto simp add: nth_append)
qed

lemma diag_entry_tile:
  assumes "j < n"
  shows "diag_entry (map (\<lambda>c. replicate n c) ps) offs i j
       = sum_list (map (\<lambda>(d, c). if d = int j - int i then c else 0) (zip offs ps))"
proof -
  have "map (\<lambda>(d, row). if d = int j - int i then row ! j else 0)
          (zip offs (map (\<lambda>c. replicate n c) ps))
      = map (\<lambda>(d, c). if d = int j - int i then c else 0) (zip offs ps)"
    using assms by (simp add: zip_map2 case_prod_unfold)
  then show ?thesis
    by (simp add: diag_entry_def)
qed

lemma offsets_distinct:
  assumes "2 * k < n"
  shows "distinct (map (\<lambda>i. - int n + 1 + int i) [0..<k]
                 @ map (\<lambda>i. - int k + int i) [0..<2 * k + 1]
                 @ map (\<lambda>i. int n - int k + int i) [0..<k])"
  using assms by (auto simp add: distinct_map inj_on_def)

lemma offsets_clash:
  assumes "0 < k" and "n \<le> 2 * k"
  shows "\<not> distinct (map (\<lambda>i. - int n + 1 + int i) [0..<k]
                 @ map (\<lambda>i. - int k + int i) [0..<2 * k + 1]
                 @ map (\<lambda>i. int n - int k + int i) [0..<k])"
proof -
  have a: "- int n + int k \<in> set (map (\<lambda>i. - int n + 1 + int i) [0..<k])"
    using assms(1) by (auto simp add: image_iff intro!: bexI [of _ "k - 1"])
  have b: "- int n + int k \<in> set (map (\<lambda>i. - int k + int i) [0..<2 * k + 1])"
    using assms(2) by (auto simp add: image_iff intro!: bexI [of _ "2 * k - n"])
  from a b have "set (map (\<lambda>i. - int n + 1 + int i) [0..<k])
      \<inter> set (map (\<lambda>i. - int k + int i) [0..<2 * k + 1] @ map (\<lambda>i. int n - int k + int i) [0..<k]) \<noteq> {}"
    by (metis IntI UnI1 empty_iff set_append)
  then show ?thesis
    by (metis distinct_append)
qed

lemma sparse_circulant_general:
  assumes "length stencil = 2 * k + 1" and "0 < k"
  shows "sparse_circulant stencil n =
     spdiags (map (\<lambda>c. replicate n c) (drop (k + 1) stencil @ stencil @ take k stencil))
        (map (\<lambda>i. - int n + 1 + int i) [0..<k]
         @ map (\<lambda>i. - int k + int i) [0..<2 * k + 1]
         @ map (\<lambda>i. int n - int k + int i) [0..<k])"
  using assms by (simp add: sparse_circulant_def Let_def)

lemma spdiags_tile:
  assumes "ps \<noteq> []" and "length offs = length ps" and "distinct offs"
  shows "spdiags (map (\<lambda>c. replicate n c) ps) offs =
     Inr (map (\<lambda>i. map (\<lambda>j. sum_list (map (\<lambda>(d, c). if d = int j - int i then c else 0)
                                  (zip offs ps))) [0..<n]) [0..<n])"
proof -
  obtain p ps' where ps: "ps = p # ps'"
    using assms(1) by (cases ps) auto
  have "map (\<lambda>j. diag_entry (map (\<lambda>c. replicate n c) ps) offs i j) [0..<n]
      = map (\<lambda>j. sum_list (map (\<lambda>(d, c). if d = int j - int i then c else 0) (zip offs ps))) [0..<n]"
    for i
    by (rule map_cong) (simp_all add: diag_entry_tile)
  then show ?thesis
    using assms(2,3) unfolding spdiags_def ps [symmetric]
    by (simp add: ps)
qed

lemma spdiags_tile_clash:
  assumes "ps \<noteq> []" and "\<not> distinct offs"
  shows "spdiags (map (\<lambda>c. replicate n c) ps) offs = Inl ValueError"
  using assms by (cases ps) (simp_all add: spdiags_def)

lemma three_blocks:
  fixes st :: vec
  assumes "length st = 2 * k + 1"
  shows "sum_list (map (\<lambda>(d, c). if d = \<delta> then c else 0)
           (zip (map (\<lambda>i. - int n + 1 + int i) [0..<k]
                 @ map (\<lambda>i. - int k + int i) [0..<2 * k + 1]
                 @ map (\<lambda>i. int n - int k + int i) [0..<k])
                (drop (k + 1) st @ st @ take k st)))
       = wrap_coeff st n \<delta>"
proof -
  have l1: "length (drop (k + 1) st) = k" and l2: "length st = 2 * k + 1"
    and l3: "length (take k st) = k"
    using assms by simp_all
  have s1: "sum_list (map (\<lambda>(d, c). if d = \<delta> then c else 0)
           (zip (map (\<lambda>i. - int n + 1 + int i) [0..<k]) (drop (k + 1) st)))
        = (if - int n + 1 \<le> \<delta> \<and> \<delta> \<le> - int n + int k then st ! nat (int k + \<delta> + int n) else 0)"
  proof -
    have "k + 1 + nat (\<delta> - (- int n + 1)) = nat (int k + \<delta> + int n)" if "- int n + 1 \<le> \<delta>"
      using that by linarith
    then show ?thesis
      using block_sum [of \<delta> "- int n + 1" "drop (k + 1) st"] assms
      unfolding l1 by auto
  qed
  have s2: "sum_list (map (\<lambda>(d, c). if d = \<delta> then c else 0)
           (zip (map (\<lambda>i. - int k + int i) [0..<2 * k + 1]) st))
        = (if - int k \<le> \<delta> \<and> \<delta> \<le> int k then st ! nat (int k + \<delta>) else 0)"
  proof -
    have "nat (\<delta> + int k) = nat (int k + \<delta>)"
      by (simp add: add.commute)
    then show ?thesis
      using block_sum [of \<delta> "- int k" st]
      unfolding l2 by auto
  qed
  have s3: "sum_list (map (\<lambda>(d, c). if d = \<delta> then c else 0)
           (zip (map (\<lambda>i. int n - int k + int i) [0..<k]) (take k st)))
        = (if int n - int k \<le> \<delta> \<and> \<delta> \<le> int n - 1 then st ! nat (int k + \<delta> - int n) else 0)"
  proof -
    have "nat (\<delta> - (int n - int k)) = nat (int k + \<delta> - int n)"
      by (simp add: algebra_simps)
    moreover have "nat (int k + \<delta> - int n) < k" if "int n - int k \<le> \<delta>" "\<delta> \<le> int n - 1"
      using that by linarith
    ultimately show ?thesis
      using block_sum [of \<delta> "int n - int k" "take k st"]
      unfolding l3 by auto
  qed
  have k: "int ((length st - 1) div 2) = int k"
    using assms by simp
  have split: "sum_list (map (\<lambda>(d, c). if d = \<delta> then c else 0)
           (zip (map (\<lambda>i. - int n + 1 + int i) [0..<k]
                 @ map (\<lambda>i. - int k + int i) [0..<2 * k + 1]
                 @ map (\<lambda>i. int n - int k + int i) [0..<k])
                (drop (k + 1) st @ st @ take k st)))
     = sum_list (map (\<lambda>(d, c). if d = \<delta> then c else 0)
           (zip (map (\<lambda>i. - int n + 1 + int i) [0..<k]) (drop (k + 1) st)))
     + sum_list (map (\<lambda>(d, c). if d = \<delta> then c else 0)
           (zip (map (\<lambda>i. - int k + int i) [0..<2 * k + 1]) st))
     + sum_list (map (\<lambda>(d, c). if d = \<delta> then c else 0)
           (zip (map (\<lambda>i. int n - int k + int i) [0..<k]) (take k st)))"
    using l1 l2 l3 by (simp only: zip_append length_map length_upt diff_zero map_append sum_list_append add.assoc)
  show ?thesis
    unfolding split s1 s2 s3 wrap_coeff_def Let_def k ..
qed

lemma sparse_circulant_entries:
  assumes "length stencil = 2 * k + 1" and "0 < k" and "2 * k < n"
  shows "sparse_circulant stencil n = Inr (circulant_of (wrap_coeff stencil n) n)"
proof -
  have ne: "drop (k + 1) stencil @ stencil @ take k stencil \<noteq> []"
    using assms(1) by auto
  have len: "length (map (\<lambda>i. - int n + 1 + int i) [0..<k]
         @ map (\<lambda>i. - int k + int i) [0..<2 * k + 1]
         @ map (\<lambda>i. int n - int k + int i) [0..<k])
       = length (drop (k + 1) stencil @ stencil @ take k stencil)"
    using assms(1) by simp
  show ?thesis
    unfolding sparse_circulant_general [OF assms(1,2)]
      spdiags_tile [OF ne len offsets_distinct [OF assms(3)]]
      three_blocks [OF assms(1)] circulant_of_def ..
qed

lemma sparse_circulant_too_small:
  assumes "length stencil = 2 * k + 1" and "0 < k" and "n \<le> 2 * k"
  shows "sparse_circulant stencil n = Inl ValueError"
proof -
  have ne: "drop (k + 1) stencil @ stencil @ take k stencil \<noteq> []"
    using assms(1) by auto
  show ?thesis
    unfolding sparse_circulant_general [OF assms(1,2)]
    by (rule spdiags_tile_clash [OF ne offsets_clash [OF assms(2,3)]])
qed

subsection \<open>Circulant matrices\<close>

lemma periodicD: "periodic c n \<Longrightarrow> - int n < \<delta> \<Longrightarrow> \<delta> < int n \<Longrightarrow> c \<delta> = c (\<delta> mod int n)"
  by (simp add: periodic_def)

lemma dot_circulant:
  assumes "length q = n"
  shows "dot (circulant_of c n) q = Inr (map (\<lambda>i. \<Sum>j<n. c (int j - int i) * q ! j) [0..<n])"
proof -
  have "inner (map (\<lambda>j. c (int j - int i)) [0..<n]) q = (\<Sum>j<n. c (int j - int i) * q ! j)" for i
  proof -
    have "inner (map (\<lambda>j. c (int j - int i)) [0..<n]) q
        = (\<Sum>j<n. map (\<lambda>j. c (int j - int i)) [0..<n] ! j * q ! j)"
      using assms by (simp add: inner_sum)
    also have "\<dots> = (\<Sum>j<n. c (int j - int i) * q ! j)"
      by (intro sum.cong) simp_all
    finally show ?thesis .
  qed
  then show ?thesis
    using assms by (simp add: dot_def circulant_of_def)
qed





lemma wrap_coeff_mod:
  assumes "length st = 2 * k + 1" and "2 * k < n" and "- int n < \<delta>" and "\<delta> < int n"
  shows "wrap_coeff st n \<delta> = wrap_coeff st n (\<delta> mod int n)"
proof (cases "0 \<le> \<delta>")
  case True
  then show ?thesis
    using assms(4) by simp
next
  case False
  then have "(\<delta> + int n) mod int n = \<delta> + int n"
    using assms(3) by (intro mod_pos_pos_trivial) linarith+
  then have m: "\<delta> mod int n = \<delta> + int n"
    by simp
  have k: "int ((length st - 1) div 2) = int k"
    using assms(1) by simp
  have "nat (int k + (\<delta> + int n) - int n) = nat (int k + \<delta>)"
    by simp
  moreover have "nat (int k + (\<delta> + int n)) = nat (int k + \<delta> + int n)"
    by (simp add: add.assoc)
  ultimately show ?thesis
    unfolding m wrap_coeff_def Let_def k
    using False assms(2,3) by auto
qed

lemma wrap_coeff_nat:
  assumes "length st = 2 * k + 1" and "2 * k < n" and "m < n"
  shows "wrap_coeff st n (int m)
       = (if m \<le> k then st ! (k + m) else 0) + (if n - k \<le> m then st ! (k + m - n) else 0)"
proof -
  have k: "int ((length st - 1) div 2) = int k"
    using assms(1) by simp
  have a: "nat (int k + int m) = k + m"
    by linarith
  have b: "nat (int k + int m - int n) = k + m - n"
    by linarith
  have c: "(int n - int k \<le> int m) = (n - k \<le> m)"
    using assms(2) by linarith
  show ?thesis
    unfolding wrap_coeff_def Let_def k a b c
    using assms(2,3) by auto
qed

lemma wrap_coeff_sum:
  assumes len: "length st = 2 * k + 1" and n: "2 * k < n"
  shows "(\<Sum>m<n. wrap_coeff st n (int m)) = sum_list st"
proof -
  have "(\<Sum>m<n. wrap_coeff st n (int m))
      = (\<Sum>m<n. (if m \<le> k then st ! (k + m) else 0) + (if n - k \<le> m then st ! (k + m - n) else 0))"
    by (intro sum.cong) (simp_all add: wrap_coeff_nat [OF len n])
  also have "\<dots> = (\<Sum>m<n. if m \<le> k then st ! (k + m) else 0)
                 + (\<Sum>m<n. if n - k \<le> m then st ! (k + m - n) else 0)"
    by (simp add: sum.distrib)
  also have "(\<Sum>m<n. if m \<le> k then st ! (k + m) else 0) = (\<Sum>t = k..<2 * k + 1. st ! t)"
  proof -
    have "(\<Sum>m<n. if m \<le> k then st ! (k + m) else 0)
        = (\<Sum>m\<in>{..<n} \<inter> {m. m \<le> k}. st ! (k + m))"
      by (simp add: sum.inter_restrict)
    also have "{..<n} \<inter> {m. m \<le> k} = {0..<k + 1}"
      using n by auto
    also have "(\<Sum>m = 0..<k + 1. st ! (k + m)) = (\<Sum>m = 0..<k + 1. st ! (m + k))"
      by (simp add: add.commute)
    also have "\<dots> = (\<Sum>t = 0 + k..<k + 1 + k. st ! t)"
      by (rule sum.shift_bounds_nat_ivl [symmetric])
    also have "k + 1 + k = 2 * k + 1"
      by simp
    finally show ?thesis by (simp del: sum.op_ivl_Suc)
  qed
  also have "(\<Sum>m<n. if n - k \<le> m then st ! (k + m - n) else 0) = (\<Sum>t = 0..<k. st ! t)"
  proof -
    have "(\<Sum>m<n. if n - k \<le> m then st ! (k + m - n) else 0)
        = (\<Sum>m\<in>{..<n} \<inter> {m. n - k \<le> m}. st ! (k + m - n))"
      by (simp add: sum.inter_restrict)
    also have "{..<n} \<inter> {m. n - k \<le> m} = {0 + (n - k)..<k + (n - k)}"
      using n by auto
    also have "(\<Sum>m = 0 + (n - k)..<k + (n - k). st ! (k + m - n))
        = (\<Sum>t = 0..<k. st ! (k + (t + (n - k)) - n))"
      by (rule sum.shift_bounds_nat_ivl)
    also have "\<dots> = (\<Sum>t = 0..<k. st ! t)"
      using n by (intro sum.cong) simp_all
    finally show ?thesis .
  qed
  also have "(\<Sum>t = k..<2 * k + 1. st ! t) + (\<Sum>t = 0..<k. st ! t) = (\<Sum>t = 0..<2 * k + 1. st ! t)"
    using sum.atLeastLessThan_concat [of 0 k "2 * k + 1" "\<lambda>t. st ! t"] by simp
  also have "\<dots> = sum_list st"
    using len by (simp add: sum_list_sum_nth)
  finally show ?thesis .
qed

lemma column_sum:
  fixes c :: "int \<Rightarrow> real"
  assumes periodic: "periodic c n"
    and j: "j < n"
  shows "(\<Sum>i<n. c (int j - int i)) = (\<Sum>m<n. c (int m))"
proof (rule sum.reindex_bij_witness
    [of _ "\<lambda>m. nat ((int j - int m) mod int n)" "\<lambda>i. nat ((int j - int i) mod int n)"])
  note per = periodicD [OF periodic]
  have n: "0 < n" using j by simp
  have inv: "nat ((int j - int (nat ((int j - int a) mod int n))) mod int n) = a" if "a < n" for a
  proof -
    have pos: "0 \<le> (int j - int a) mod int n"
      using n by simp
    have "(int j - int (nat ((int j - int a) mod int n))) mod int n
        = (int j - (int j - int a) mod int n) mod int n"
      using pos by simp
    also have "\<dots> = (int j - (int j - int a)) mod int n"
      by (simp add: mod_diff_right_eq)
    also have "\<dots> = int a"
      using that by simp
    finally show ?thesis by simp
  qed
  have mem: "nat ((int j - int a) mod int n) \<in> {..<n}" for a
    using n by (simp add: nat_less_iff)
  fix a assume "a \<in> {..<n}"
  then have a: "a < n" by simp
  show "nat ((int j - int (nat ((int j - int a) mod int n))) mod int n) = a"
    by (rule inv [OF a])
  show "nat ((int j - int a) mod int n) \<in> {..<n}"
    by (rule mem)
  show "nat ((int j - int (nat ((int j - int a) mod int n))) mod int n) = a"
    by (rule inv [OF a])
  show "nat ((int j - int a) mod int n) \<in> {..<n}"
    by (rule mem)
  have "c (int j - int a) = c ((int j - int a) mod int n)"
    using a j by (intro per) linarith+
  then show "c (int (nat ((int j - int a) mod int n))) = c (int j - int a)"
    using n by simp
qed

lemma sparse_circulant_structure:
  assumes "sparse_circulant st n = Inr A"
  obtains c where "A = circulant_of c n" and "periodic c n"
    and "0 < n \<longrightarrow> (\<Sum>m<n. c (int m)) = sum_list st"
proof (cases "length st = 1")
  case True
  then obtain a where st: "st = [a]"
    by (cases st) auto
  let ?c = "\<lambda>\<delta>::int. if \<delta> = 0 then a else 0"
  have "map (\<lambda>i. map (\<lambda>j. if i = j then a else 0) [0..<n]) [0..<n] = circulant_of ?c n"
    unfolding circulant_of_def by (intro map_cong refl) auto
  then have "A = circulant_of ?c n"
    using assms by (simp add: st sparse_circulant_single)
  moreover have "?c \<delta> = ?c (\<delta> mod int n)" if "- int n < \<delta>" "\<delta> < int n" for \<delta>
  proof (cases "0 \<le> \<delta>")
    case True
    then show ?thesis using that by simp
  next
    case False
    then have "(\<delta> + int n) mod int n = \<delta> + int n"
      using that by (intro mod_pos_pos_trivial) linarith+
    then have "\<delta> mod int n = \<delta> + int n"
      by simp
    then show ?thesis
      using False that by simp
  qed
  then have "periodic ?c n"
    unfolding periodic_def by blast
  moreover have "0 < n \<longrightarrow> (\<Sum>m<n. ?c (int m)) = sum_list st"
  proof
    assume "0 < n"
    have "(\<Sum>m<n. ?c (int m)) = (\<Sum>m<n. if m = 0 then a else 0)"
      by (intro sum.cong) simp_all
    also have "\<dots> = a"
      using \<open>0 < n\<close> by simp
    finally show "(\<Sum>m<n. ?c (int m)) = sum_list st"
      by (simp add: st)
  qed
  ultimately show ?thesis
    by (rule that)
next
  case False
  have odd: "odd (length st)"
    using assms False by (auto simp add: sparse_circulant_def Let_def split: if_splits)
  then obtain k where len: "length st = 2 * k + 1"
    by (auto elim: oddE)
  have k: "0 < k"
    using len False by simp
  have n: "2 * k < n"
  proof (rule ccontr)
    assume "\<not> 2 * k < n"
    then have "sparse_circulant st n = Inl ValueError"
      by (intro sparse_circulant_too_small [OF len k]) simp
    then show False
      using assms by simp
  qed
  have "A = circulant_of (wrap_coeff st n) n"
    using assms sparse_circulant_entries [OF len k n] by simp
  moreover have "wrap_coeff st n \<delta> = wrap_coeff st n (\<delta> mod int n)"
    if "- int n < \<delta>" "\<delta> < int n" for \<delta>
    using that by (rule wrap_coeff_mod [OF len n])
  then have "periodic (wrap_coeff st n) n"
    unfolding periodic_def by blast
  moreover have "0 < n \<longrightarrow> (\<Sum>m<n. wrap_coeff st n (int m)) = sum_list st"
    by (simp add: wrap_coeff_sum [OF len n])
  ultimately show ?thesis
    by (rule that)
qed

lemma dot_length: "dot A q = Inr y \<Longrightarrow> length q = length A \<and> length y = length A"
  by (auto simp add: dot_def split: if_splits)

lemma length_circulant_of: "length (circulant_of c n) = n"
  by (simp add: circulant_of_def)


text \<open>
  Claim C9.  A stencil of half-width \<open>k\<close> on a periodic mesh of \<open>n\<close> points with
  \<open>n \<le> 2k\<close> is rejected: the wrap-around diagonals then coincide with diagonals of
  the band, and the diagonal-format constructor raises \<^verbatim>\<open>ValueError\<close> (the
  configuration error) instead of returning a matrix.  The mesh size is a positive
  point count.
\<close>

theorem C9_degenerate_mesh_rejected:
  assumes "length stencil = 2 * k + 1" and "0 < n" and "n \<le> 2 * k"
  shows "sparse_circulant stencil n = Inl ValueError"
proof -
  have "0 < k"
    using assms(2,3) by simp
  then show ?thesis
    using assms(1,3) by (intro sparse_circulant_too_small)
qed

theorem C9_witness:
  "length [1, -2, 1 :: real] = 2 * 1 + 1 \<and> (0::nat) < 2 \<and> (2::nat) \<le> 2 * 1 \<and>
   sparse_circulant [1, -2, 1] 2 = Inl ValueError"
  using C9_degenerate_mesh_rejected [of "[1, -2, 1]" 1 2] by simp

subsection \<open>Shift invariance\<close>



text \<open>
  The assembly of a stencil of the table succeeds on every mesh of at least nine
  points, so the hypothesis of the shift invariance is met there.
\<close>

lemma supported_assembles:
  assumes "gradient_stencil grad order = Inr stencil" and "9 \<le> n"
  shows "sparse_circulant stencil n = Inr (circulant_of (wrap_coeff stencil n) n)"
proof -
  have g: "grad \<in> {1, 2, 4}" and o: "order \<in> {2, 4, 6}"
    using assms(1) gradient_stencil_missing [of grad order] by auto
  from g o have "gradient_stencil grad order = Inr stencil \<longrightarrow>
      odd (length stencil) \<and> 3 \<le> length stencil \<and> length stencil \<le> 9"
    by (rule supported_cases) (auto simp add: gradient_stencil_values)
  then have "odd (length stencil)" "3 \<le> length stencil" "length stencil \<le> 9"
    using assms(1) by simp_all
  then have "\<exists>k. length stencil = 2 * k + 1 \<and> 0 < k \<and> k \<le> 4"
    by (auto elim!: oddE)
  then obtain k where "length stencil = 2 * k + 1" "0 < k" "k \<le> 4"
    by blast
  then show ?thesis
    using assms(2) by (intro sparse_circulant_entries) (assumption | linarith)+
qed

subsection \<open>Mean conservation\<close>

lemma scale_circulant: "scale a (circulant_of c n) = circulant_of (\<lambda>\<delta>. a * c \<delta>) n"
  by (simp add: scale_def circulant_of_def)

lemma msub_circulant:
  "msub (circulant_of c n) (circulant_of d n) = circulant_of (\<lambda>\<delta>. c \<delta> - d \<delta>) n"
  by (simp add: msub_def circulant_of_def zip_map_map zip_same_conv_map)

lemma periodic_combination:
  assumes "periodic c n" and "periodic d n"
  shows "periodic (\<lambda>\<delta>. a * c \<delta> - b * d \<delta>) n"
  using assms by (simp add: periodic_def)

lemma sum_dot_circulant:
  assumes per: "periodic c n" and zero: "0 < n \<Longrightarrow> (\<Sum>m<n. c (int m)) = 0"
    and len: "length q = n"
  shows "dot (circulant_of c n) q = Inr (map (\<lambda>i. \<Sum>j<n. c (int j - int i) * q ! j) [0..<n])
       \<and> sum_list (map (\<lambda>i. \<Sum>j<n. c (int j - int i) * q ! j) [0..<n]) = 0"
proof -
  have "sum_list (map (\<lambda>i. \<Sum>j<n. c (int j - int i) * q ! j) [0..<n])
      = (\<Sum>i<n. \<Sum>j<n. c (int j - int i) * q ! j)"
    by (simp add: interv_sum_list_conv_sum_set_nat atLeast0LessThan)
  also have "\<dots> = (\<Sum>j<n. \<Sum>i<n. c (int j - int i) * q ! j)"
    by (rule sum.swap)
  also have "\<dots> = (\<Sum>j<n. (\<Sum>i<n. c (int j - int i)) * q ! j)"
    by (simp add: sum_distrib_right)
  also have "\<dots> = (\<Sum>j<n. 0)"
  proof (rule sum.cong)
    fix j assume "j \<in> {..<n}"
    then have j: "j < n" by simp
    then have "(\<Sum>i<n. c (int j - int i)) = 0"
      using column_sum [OF per j] zero by simp
    then show "(\<Sum>i<n. c (int j - int i)) * q ! j = 0"
      by simp
  qed simp
  finally show ?thesis
    using dot_circulant [OF len, of c] by simp
qed

text \<open>
  Claim C7.  For the spatial residual \<open>K = (u/dx) D - (nu/dx\<^sup>2) L\<close> with \<open>D\<close> and \<open>L\<close>
  assembled from stencils that sum to zero, the entries of \<open>K q\<close> sum to zero for
  every vector \<open>q\<close> of the mesh: \<open>K\<close> conserves the mean of the field.
\<close>

theorem C7_mean_conservation:
  assumes "sparse_circulant sD n = Inr D" and "sparse_circulant sL n = Inr L"
    and "sum_list sD = 0" and "sum_list sL = 0"
    and "spatial_terms u nu dx D L = Inr K"
    and "length q = n"
  shows "\<exists>y. dot K q = Inr y \<and> sum_list y = 0"
proof -
  obtain cD where D: "D = circulant_of cD n" and pD: "periodic cD n"
    and sD: "0 < n \<longrightarrow> (\<Sum>m<n. cD (int m)) = sum_list sD"
    using assms(1) by (rule sparse_circulant_structure)
  obtain cL where L: "L = circulant_of cL n" and pL: "periodic cL n"
    and sL: "0 < n \<longrightarrow> (\<Sum>m<n. cL (int m)) = sum_list sL"
    using assms(2) by (rule sparse_circulant_structure)
  let ?c = "\<lambda>\<delta>. u / dx * cD \<delta> - nu / dx ^ 2 * cL \<delta>"
  have K: "K = circulant_of ?c n"
    using assms(5) by (simp add: spatial_terms_def D L scale_circulant msub_circulant split: if_splits)
  have per: "periodic ?c n"
    using pD pL by (rule periodic_combination)
  have zero: "(\<Sum>m<n. ?c (int m)) = 0" if "0 < n"
  proof -
    have "(\<Sum>m<n. ?c (int m)) = u / dx * (\<Sum>m<n. cD (int m)) - nu / dx ^ 2 * (\<Sum>m<n. cL (int m))"
      by (simp add: sum_subtractf sum_distrib_left)
    then show ?thesis
      using sD sL that assms(3,4) by simp
  qed
  show ?thesis
    using sum_dot_circulant [OF per zero assms(6)] unfolding K by blast
qed

theorem C7_witness:
  "sparse_circulant [-1/2, 0, 1/2] 4 = Inr [[0, 1/2, 0, -1/2], [-1/2, 0, 1/2, 0], [0, -1/2, 0, 1/2], [1/2, 0, -1/2, 0]]
   \<and> sparse_circulant [1, -2, 1] 4 = Inr [[-2, 1, 0, 1], [1, -2, 1, 0], [0, 1, -2, 1], [1, 0, 1, -2]]
   \<and> sum_list [-1/2, 0, 1/2 :: real] = 0 \<and> sum_list [1, -2, 1 :: real] = 0
   \<and> spatial_terms 1 (1/10) (1/2) [[0, 1/2, 0, -1/2], [-1/2, 0, 1/2, 0], [0, -1/2, 0, 1/2], [1/2, 0, -1/2, 0]] [[-2, 1, 0, 1], [1, -2, 1, 0], [0, 1, -2, 1], [1, 0, 1, -2]]
       = Inr [[4/5, 3/5, 0, -7/5], [-7/5, 4/5, 3/5, 0], [0, -7/5, 4/5, 3/5], [3/5, 0, -7/5, 4/5]]
   \<and> length [1, 2, 3, 5 :: real] = 4
   \<and> (\<exists>y. dot [[4/5, 3/5, 0, -7/5], [-7/5, 4/5, 3/5, 0], [0, -7/5, 4/5, 3/5], [3/5, 0, -7/5, 4/5]] [1, 2, 3, 5] = Inr y
         \<and> sum_list y = 0)"
proof -
  have h1: "sparse_circulant [-1/2, 0, 1/2] 4 = Inr [[0, 1/2, 0, -1/2], [-1/2, 0, 1/2, 0], [0, -1/2, 0, 1/2], [1/2, 0, -1/2, 0]]"
    by code_simp
  have h2: "sparse_circulant [1, -2, 1] 4 = Inr [[-2, 1, 0, 1], [1, -2, 1, 0], [0, 1, -2, 1], [1, 0, 1, -2]]"
    by code_simp
  have h3: "sum_list [-1/2, 0, 1/2 :: real] = 0" and h4: "sum_list [1, -2, 1 :: real] = 0"
    by simp_all
  have h5: "spatial_terms 1 (1/10) (1/2) [[0, 1/2, 0, -1/2], [-1/2, 0, 1/2, 0], [0, -1/2, 0, 1/2], [1/2, 0, -1/2, 0]] [[-2, 1, 0, 1], [1, -2, 1, 0], [0, 1, -2, 1], [1, 0, 1, -2]]
       = Inr [[4/5, 3/5, 0, -7/5], [-7/5, 4/5, 3/5, 0], [0, -7/5, 4/5, 3/5], [3/5, 0, -7/5, 4/5]]"
    by code_simp
  have h6: "length [1, 2, 3, 5 :: real] = 4"
    by simp
  show ?thesis
    by (intro conjI)
      (rule h1, rule h2, rule h3, rule h4, rule h5, rule h6,
       rule C7_mean_conservation [OF h1 h2 h3 h4 h5 h6])
qed

subsection \<open>The time-marching loop\<close>

lemma march_append:
  "march sys (is @ js) q = (case march sys is q of Inl e \<Rightarrow> Inl e | Inr q' \<Rightarrow> march sys js q')"
  by (induction "is" arbitrary: q) (auto split: sum.splits)

lemma march_upt:
  assumes "march sys [0..<m] q = Inr q'" and "m < length q"
  shows "length q' = length q \<and> q' ! 0 = q ! 0
       \<and> (\<forall>i<m. step sys (q' ! i) = Inr (q' ! Suc i))
       \<and> (\<forall>j>m. q' ! j = q ! j)"
  using assms
proof (induction m arbitrary: q')
  case 0
  then show ?case by simp
next
  case (Suc m)
  from Suc.prems(1) obtain q1 x where q1: "march sys [0..<m] q = Inr q1"
    and x: "step sys (q1 ! m) = Inr x" and q': "q' = q1[Suc m := x]"
    by (auto simp add: march_append split: sum.splits)
  have m: "m < length q"
    using Suc.prems(2) by simp
  note ih = Suc.IH [OF q1 m]
  have len: "length q' = length q"
    using ih by (simp add: q')
  moreover have "q' ! 0 = q ! 0"
    using ih by (simp add: q')
  moreover have "step sys (q' ! i) = Inr (q' ! Suc i)" if "i < Suc m" for i
  proof (cases "i = m")
    case True
    then show ?thesis
      using x ih Suc.prems(2) by (simp add: q')
  next
    case False
    then have "i < m" using that by simp
    then show ?thesis
      using ih by (simp add: q')
  qed
  moreover have "q' ! j = q ! j" if "Suc m < j" for j
    using that ih by (simp add: q')
  ultimately show ?case
    by blast
qed

lemma timeseries_recurrence:
  assumes "timeseries sys qinit nt = Inr series"
  shows "length series = nt + 1 \<and> series ! 0 = qinit
       \<and> (\<forall>i<nt - 1. step sys (series ! i) = Inr (series ! Suc i))
       \<and> (0 < nt \<longrightarrow> series ! nt = replicate (length qinit) 0)"
proof -
  let ?q = "(replicate (nt + 1) (replicate (length qinit) 0))[0 := qinit]"
  have run: "march sys [0..<nt - 1] ?q = Inr series"
    using assms by (simp add: timeseries_def)
  have "nt - 1 < length ?q"
    by simp
  note spec = march_upt [OF run this]
  have "series ! nt = replicate (length qinit) 0" if "0 < nt"
  proof -
    have "series ! nt = ?q ! nt"
      using spec that by simp
    then show ?thesis
      using that by simp
  qed
  then show ?thesis
    using spec by simp
qed

subsection \<open>Gaussian elimination\<close>

lemma inner_Cons: "inner (a # r) (x # xs) = a * x + inner r xs"
  by (simp add: inner_def)

lemma inner_Nil: "inner [] xs = 0"
  by (simp add: inner_def)

lemma inner_zero: "inner r (replicate m 0) = 0"
proof (induction r arbitrary: m)
  case Nil
  then show ?case by (simp add: inner_def)
next
  case (Cons a r)
  show ?case
  proof (cases m)
    case 0
    then show ?thesis by (simp add: inner_def)
  next
    case (Suc k)
    then show ?thesis
      using Cons.IH [of k] by (simp add: inner_Cons)
  qed
qed

lemma inner_eliminated:
  "length r = length p \<Longrightarrow>
     inner (map2 (\<lambda>a b. a - c * b) r p) xs = inner r xs - c * inner p xs"
proof (induction r p arbitrary: xs rule: list_induct2)
  case Nil
  then show ?case by (simp add: inner_def)
next
  case (Cons a r b p)
  show ?case
  proof (cases xs)
    case Nil
    then show ?thesis by (simp add: inner_def)
  next
    case (Cons x xs')
    then show ?thesis
      using Cons.IH [of xs'] by (simp add: inner_Cons algebra_simps)
  qed
qed

lemma inner_eliminate:
  assumes "length e' = length p'"
  shows "inner (fst (eliminate (a # p', bp) (h # e', be))) xs = inner e' xs - h / a * inner p' xs"
    and "snd (eliminate (a # p', bp) (h # e', be)) = be - h / a * bp"
proof -
  have "fst (eliminate (a # p', bp) (h # e', be)) = map2 (\<lambda>x y. x - h / a * y) e' p'"
    by (simp add: eliminate_def)
  then show "inner (fst (eliminate (a # p', bp) (h # e', be))) xs = inner e' xs - h / a * inner p' xs"
    by (simp only: inner_eliminated [OF assms])
  show "snd (eliminate (a # p', bp) (h # e', be)) = be - h / a * bp"
    by (simp add: eliminate_def)
qed

lemma find_pivot_Some:
  assumes "find_pivot es = Some (p, rest)"
  shows "hd (fst p) \<noteq> 0 \<and> set es = insert p (set rest) \<and> length es = Suc (length rest)"
  using assms
proof (induction es arbitrary: rest)
  case Nil
  then show ?case by simp
next
  case (Cons e es)
  show ?case
  proof (cases "hd (fst e) \<noteq> 0")
    case True
    then show ?thesis using Cons.prems by auto
  next
    case False
    then obtain rest' where "find_pivot es = Some (p, rest')" and "rest = e # rest'"
      using Cons.prems by (auto split: option.splits)
    then show ?thesis
      using Cons.IH [of rest'] by auto
  qed
qed

lemma find_pivot_None:
  "find_pivot es = None \<Longrightarrow> \<forall>e \<in> set es. hd (fst e) = 0"
  by (induction es) (auto split: if_splits option.splits)

lemma system_ok_eliminate:
  assumes "system_ok (Suc m) es" and "find_pivot es = Some (p, rest)"
  shows "system_ok m (map (eliminate p) rest)"
proof -
  note fp = find_pivot_Some [OF assms(2)]
  have "length (fst p) = Suc m" and "\<forall>e \<in> set rest. length (fst e) = Suc m"
    and "length rest = m"
    using assms(1) fp by (auto simp add: system_ok_def)
  then show ?thesis
    by (auto simp add: system_ok_def eliminate_def Let_def)
qed

lemma gauss_sound:
  assumes "system_ok m es" and "gauss m es = Some x"
  shows "length x = m \<and> (\<forall>e \<in> set es. inner (fst e) x = snd e)"
  using assms
proof (induction m arbitrary: es x)
  case 0
  then show ?case by (simp add: system_ok_def)
next
  case (Suc m)
  from Suc.prems(2) obtain p rest xs where fp: "find_pivot es = Some (p, rest)"
    and g: "gauss m (map (eliminate p) rest) = Some xs"
    and x: "x = (snd p - inner (tl (fst p)) xs) / hd (fst p) # xs"
    by (auto split: option.splits)
  note piv = find_pivot_Some [OF fp]
  note ih = Suc.IH [OF system_ok_eliminate [OF Suc.prems(1) fp] g]
  have lens: "length (fst p) = Suc m" "\<forall>e \<in> set rest. length (fst e) = Suc m"
    using Suc.prems(1) piv by (auto simp add: system_ok_def)
  obtain a p' bp where p: "p = (a # p', bp)" and a: "a \<noteq> 0" and lp: "length p' = m"
    using lens(1) piv by (cases p, cases "fst p") auto
  have ep: "inner (fst p) x = snd p"
    using a by (simp add: x p inner_Cons)
  have "inner (fst e) x = snd e" if e: "e \<in> set rest" for e
  proof -
    have "length (fst e) = Suc m"
      using lens(2) e by simp
    then obtain h e' be where fe: "e = (h # e', be)" and le: "length e' = m"
      by (cases e, cases "fst e") auto
    have "inner (fst (eliminate p e)) xs = snd (eliminate p e)"
      using ih e by simp
    then have "inner e' xs - h / a * inner p' xs = be - h / a * bp"
      unfolding p fe using le lp by (simp only: inner_eliminate)
    then show ?thesis
      using a by (simp add: x p fe inner_Cons field_simps)
  qed
  then show ?case
    using ep ih piv by (auto simp add: x)
qed

lemma gauss_complete:
  assumes "system_ok m es" and "gauss m es = None"
  shows "\<exists>x. length x = m \<and> x \<noteq> replicate m 0 \<and> (\<forall>e \<in> set es. inner (fst e) x = 0)"
  using assms
proof (induction m arbitrary: es)
  case 0
  then show ?case by simp
next
  case (Suc m)
  show ?case
  proof (cases "find_pivot es")
    case None
    have "inner (fst e) (1 # replicate m 0) = 0" if "e \<in> set es" for e
    proof -
      have "length (fst e) = Suc m"
        using Suc.prems(1) that by (simp add: system_ok_def)
      then obtain h e' where fe: "fst e = h # e'"
        by (cases "fst e") auto
      have "h = 0"
        using find_pivot_None [OF None] that fe by auto
      moreover have "inner e' (replicate m 0) = 0"
        by (rule inner_zero)
      ultimately show ?thesis
        by (simp add: fe inner_Cons)
    qed
    then show ?thesis
      by (intro exI [of _ "1 # replicate m 0"]) simp
  next
    case (Some pr)
    then obtain p rest where fp: "find_pivot es = Some (p, rest)"
      by (cases pr) auto
    then have g: "gauss m (map (eliminate p) rest) = None"
      using Suc.prems(2) by (auto split: option.splits)
    note piv = find_pivot_Some [OF fp]
    from Suc.IH [OF system_ok_eliminate [OF Suc.prems(1) fp] g]
    obtain xs where lx: "length xs = m" and nz: "xs \<noteq> replicate m 0"
      and ker: "\<forall>e \<in> set rest. inner (fst (eliminate p e)) xs = 0"
      by auto
    have lens: "length (fst p) = Suc m" "\<forall>e \<in> set rest. length (fst e) = Suc m"
      using Suc.prems(1) piv by (auto simp add: system_ok_def)
    obtain a p' bp where p: "p = (a # p', bp)" and a: "a \<noteq> 0" and lp: "length p' = m"
      using lens(1) piv by (cases p, cases "fst p") auto
    let ?x = "(- inner p' xs / a) # xs"
    have ep: "inner (fst p) ?x = 0"
      using a by (simp add: p inner_Cons)
    have "inner (fst e) ?x = 0" if e: "e \<in> set rest" for e
    proof -
      have "length (fst e) = Suc m"
        using lens(2) e by simp
      then obtain h e' be where fe: "e = (h # e', be)" and le: "length e' = m"
        by (cases e, cases "fst e") auto
      have "inner (fst (eliminate p e)) xs = 0"
        using ker e by simp
      then have "inner e' xs - h / a * inner p' xs = 0"
        unfolding p fe using le lp by (simp only: inner_eliminate)
      then show ?thesis
        using a by (simp add: p fe inner_Cons field_simps)
    qed
    then have "\<forall>e \<in> set es. inner (fst e) ?x = 0"
      using ep piv by auto
    moreover have "length ?x = Suc m" "?x \<noteq> replicate (Suc m) 0"
      using lx nz by simp_all
    ultimately show ?thesis
      by blast
  qed
qed

subsection \<open>Factorisation and solve\<close>

lemma squareD: "square A n \<Longrightarrow> length A = n" "square A n \<Longrightarrow> i < n \<Longrightarrow> length (A ! i) = n"
  by (simp_all add: square_def)

lemma system_ok_zip:
  assumes "square A n" and "length b = n"
  shows "system_ok n (zip A b)"
  using assms by (auto simp add: system_ok_def square_def dest: set_zip_leftD)

lemma nth_zip_mem:
  assumes "i < length A" and "length b = length A"
  shows "(A ! i, b ! i) \<in> set (zip A b)"
  using assms by (auto simp add: set_zip)

lemma gauss_solves:
  assumes sq: "square A n" and b: "length b = n" and g: "gauss n (zip A b) = Some x"
  shows "length x = n \<and> dot A x = Inr b"
proof -
  note s = gauss_sound [OF system_ok_zip [OF sq b] g]
  have len: "length A = n"
    using sq by (rule squareD)
  have "inner (A ! i) x = b ! i" if "i < n" for i
    using s nth_zip_mem [of i A b] that len b by fastforce
  then have "map (\<lambda>r. inner r x) A = b"
    using len b by (intro nth_equalityI) simp_all
  then show ?thesis
    using s len by (simp add: dot_def)
qed

lemma gauss_fails:
  assumes sq: "square A n" and b: "length b = n" and g: "gauss n (zip A b) = None"
  shows "\<not> nonsingular A"
proof -
  have len: "length A = n"
    using sq by (rule squareD)
  obtain x where lx: "length x = n" and nz: "x \<noteq> replicate n 0"
    and ker: "\<forall>e \<in> set (zip A b). inner (fst e) x = 0"
    using gauss_complete [OF system_ok_zip [OF sq b] g] by blast
  have "inner (A ! i) x = 0" if "i < n" for i
    using ker nth_zip_mem [of i A b] that len b by fastforce
  then have "map (\<lambda>r. inner r x) A = replicate n 0"
    using len by (intro nth_equalityI) simp_all
  then have "dot A x = Inr (replicate (length A) 0)"
    using lx len by (simp add: dot_def)
  then show ?thesis
    using nz len unfolding nonsingular_def by blast
qed

lemma length_unit_vec: "length (unit_vec n j) = n"
  by (simp add: unit_vec_def)

lemma nth_unit_vec: "i < n \<Longrightarrow> unit_vec n j ! i = (if i = j then 1 else 0)"
  by (simp add: unit_vec_def)

lemma dot_nth:
  assumes "dot A x = Inr y" and "i < length A"
  shows "inner (A ! i) x = y ! i"
  using assms by (auto simp add: dot_def split: if_splits)

lemma factorized_Inr:
  assumes sq: "square A n" and f: "factorized A = Inr F"
  shows "square F n \<and> (\<forall>rhs. length rhs = n \<longrightarrow> (\<exists>x. dot F rhs = Inr x \<and> dot A x = Inr rhs))"
proof -
  have len: "length A = n"
    using sq by (rule squareD)
  define col where "col j = the (gauss n (zip A (unit_vec n j)))" for j
  have none: "None \<notin> set (inverse_columns A)"
    using f by (auto simp add: factorized_def Let_def split: if_splits)
  have F: "F = map (\<lambda>i. map (\<lambda>j. col j ! i) [0..<n]) [0..<n]"
    using f none by (simp add: factorized_def Let_def inverse_columns_def len col_def comp_def)
  have g: "gauss n (zip A (unit_vec n j)) = Some (col j)" if "j < n" for j
  proof -
    have "gauss n (zip A (unit_vec n j)) \<in> set (inverse_columns A)"
      using that by (simp add: inverse_columns_def len)
    then have "gauss n (zip A (unit_vec n j)) \<noteq> None"
      using none by metis
    then show ?thesis
      by (auto simp add: col_def)
  qed
  have colj: "length (col j) = n \<and> dot A (col j) = Inr (unit_vec n j)" if "j < n" for j
    using gauss_solves [OF sq length_unit_vec g [OF that]] .
  have sqF: "square F n"
    by (auto simp add: F square_def)
  have solve: "\<exists>x. dot F rhs = Inr x \<and> dot A x = Inr rhs" if rhs: "length rhs = n" for rhs
  proof -
    let ?x = "map (\<lambda>i. \<Sum>j<n. col j ! i * rhs ! j) [0..<n]"
    have "inner (map (\<lambda>j. col j ! i) [0..<n]) rhs = (\<Sum>j<n. col j ! i * rhs ! j)" for i
    proof -
      have "inner (map (\<lambda>j. col j ! i) [0..<n]) rhs
          = (\<Sum>j<n. map (\<lambda>j. col j ! i) [0..<n] ! j * rhs ! j)"
        using rhs by (simp add: inner_sum)
      also have "\<dots> = (\<Sum>j<n. col j ! i * rhs ! j)"
        by (intro sum.cong) simp_all
      finally show ?thesis .
    qed
    then have x: "dot F rhs = Inr ?x"
      using rhs by (simp add: dot_def F)
    have "inner (A ! i) ?x = rhs ! i" if i: "i < n" for i
    proof -
      have li: "length (A ! i) = n"
        using sq i by (rule squareD)
      have "inner (A ! i) ?x = (\<Sum>l<n. A ! i ! l * ?x ! l)"
        using li inner_sum [of "A ! i" ?x] by simp
      also have "\<dots> = (\<Sum>l<n. \<Sum>j<n. A ! i ! l * (col j ! l * rhs ! j))"
        by (intro sum.cong) (simp_all add: sum_distrib_left)
      also have "\<dots> = (\<Sum>j<n. \<Sum>l<n. A ! i ! l * (col j ! l * rhs ! j))"
        by (rule sum.swap)
      also have "\<dots> = (\<Sum>j<n. (\<Sum>l<n. A ! i ! l * col j ! l) * rhs ! j)"
        by (simp add: sum_distrib_right mult.assoc)
      also have "\<dots> = (\<Sum>j<n. (if i = j then 1 else 0) * rhs ! j)"
      proof (rule sum.cong)
        fix j assume "j \<in> {..<n}"
        then have j: "j < n" by simp
        have "(\<Sum>l<n. A ! i ! l * col j ! l) = inner (A ! i) (col j)"
          using li colj [OF j] inner_sum [of "A ! i" "col j"] by simp
        also have "\<dots> = unit_vec n j ! i"
          using colj [OF j] i len by (intro dot_nth) simp_all
        finally show "(\<Sum>l<n. A ! i ! l * col j ! l) * rhs ! j = (if i = j then 1 else 0) * rhs ! j"
          using i by (simp add: nth_unit_vec)
      qed simp
      also have "\<dots> = (\<Sum>j<n. if i = j then rhs ! j else 0)"
        by (intro sum.cong) simp_all
      also have "\<dots> = rhs ! i"
        using i by simp
      finally show ?thesis .
    qed
    then have "map (\<lambda>r. inner r ?x) A = rhs"
      using len rhs by (intro nth_equalityI) simp_all
    then have "dot A ?x = Inr rhs"
      using len by (simp add: dot_def)
    with x show ?thesis
      by blast
  qed
  show ?thesis
    using sqF solve by blast
qed

lemma factorized_Inl:
  assumes sq: "square A n" and f: "factorized A = Inl e"
  shows "e = RuntimeError \<and> \<not> nonsingular A"
proof -
  have len: "length A = n"
    using sq by (rule squareD)
  have "None \<in> set (inverse_columns A)" and e: "e = RuntimeError"
    using f by (auto simp add: factorized_def Let_def split: if_splits)
  then obtain j where "j < n" and "gauss n (zip A (unit_vec n j)) = None"
    by (auto simp add: inverse_columns_def len)
  then have "\<not> nonsingular A"
    using gauss_fails [OF sq length_unit_vec] by blast
  with e show ?thesis
    by simp
qed

lemma factorized_nonsingular:
  assumes "square A n" and "nonsingular A"
  shows "\<exists>F. factorized A = Inr F"
  using factorized_Inl [OF assms(1)] assms(2) by (cases "factorized A") auto

subsection \<open>The implicit system\<close>

text \<open>
  Whenever the system is built, its two matrices are \<open>A0 = -(1/dt) M + (1 - theta) K\<close>
  and \<open>A1 = (1/dt) M + theta K\<close>, and the stored factors are those of \<open>A1\<close>.
\<close>

lemma scale_neg: "scale c (neg M) = scale (- c) M"
  by (simp add: scale_def neg_def)

lemma implicit_theta_Inr:
  assumes "implicit_theta M K theta dt = Inr sys"
  shows "dt \<noteq> 0 \<and> A0 sys = madd (scale (- (1 / dt)) M) (scale (1 - theta) K)
       \<and> A1 sys = madd (scale (1 / dt) M) (scale theta K)
       \<and> factorized (A1 sys) = Inr (factors sys)"
  using assms
  by (auto simp add: implicit_theta_def mdiv_def Let_def scale_neg split: if_splits sum.splits)

lemma implicit_theta_succeeds:
  assumes "dt \<noteq> 0" and "factorized (madd (scale (1 / dt) M) (scale theta K)) = Inr F"
  shows "implicit_theta M K theta dt =
     Inr \<lparr>A0 = madd (scale (- (1 / dt)) M) (scale (1 - theta) K),
          A1 = madd (scale (1 / dt) M) (scale theta K), factors = F\<rparr>"
  using assms by (simp add: implicit_theta_def mdiv_def Let_def scale_neg)

subsection \<open>The case of a vanishing spatial residual\<close>

text \<open>
  With \<open>u = 0\<close> and \<open>nu = 0\<close> the residual \<open>K\<close> is the zero matrix, \<open>A1\<close> is
  \<open>1/dt\<close> times the identity and \<open>A0\<close> its negative, so a step returns its argument.
\<close>

lemma diag_circulant:
  "map (\<lambda>i. map (\<lambda>j. if i = j then a else 0) [0..<n]) [0..<n]
     = circulant_of (\<lambda>\<delta>. if \<delta> = 0 then a else 0) n"
  unfolding circulant_of_def by (intro map_cong refl) auto

lemma madd_circulant:
  "madd (circulant_of c n) (circulant_of d n) = circulant_of (\<lambda>\<delta>. c \<delta> + d \<delta>) n"
  by (simp add: madd_def circulant_of_def zip_map_map zip_same_conv_map)

lemma square_circulant: "square (circulant_of c n) n"
  by (auto simp add: square_def circulant_of_def)

lemma dot_scalar:
  assumes "length q = n"
  shows "dot (circulant_of (\<lambda>\<delta>. if \<delta> = 0 then c else 0) n) q = Inr (map (\<lambda>v. c * v) q)"
  using dot_diag [OF assms, of c] by (simp add: diag_circulant)

lemma nonsingular_scalar:
  assumes "c \<noteq> 0"
  shows "nonsingular (circulant_of (\<lambda>\<delta>. if \<delta> = 0 then c else 0) n)"
  unfolding nonsingular_def
proof (intro allI impI)
  fix x
  let ?A = "circulant_of (\<lambda>\<delta>. if \<delta> = 0 then c else 0) n"
  assume d: "dot ?A x = Inr (replicate (length ?A) 0)"
  have lx: "length x = n"
    using dot_length [OF d] by (simp add: length_circulant_of)
  have "map (\<lambda>v. c * v) x = replicate n 0"
    using d dot_scalar [OF lx, of c] by (simp add: length_circulant_of)
  then have "\<forall>v \<in> set x. c * v = 0"
    by (metis (mono_tags, lifting) imageI in_set_replicate set_map)
  then have "\<forall>v \<in> set x. v = 0"
    using assms by simp
  then have "x = replicate n 0"
    using lx by (intro replicate_eqI) simp_all
  then show "x = replicate (length ?A) 0"
    by (simp add: length_circulant_of)
qed

lemma solve_scalar:
  assumes c: "c \<noteq> 0" and f: "factorized (circulant_of (\<lambda>\<delta>. if \<delta> = 0 then c else 0) n) = Inr F"
    and rhs: "length rhs = n"
  shows "dot F rhs = Inr (map (\<lambda>v. v / c) rhs)"
proof -
  let ?A = "circulant_of (\<lambda>\<delta>. if \<delta> = 0 then c else 0) n"
  obtain x where x: "dot F rhs = Inr x" and ax: "dot ?A x = Inr rhs"
    using factorized_Inr [OF square_circulant f] rhs by blast
  have lx: "length x = n"
    using dot_length [OF ax] by (simp add: length_circulant_of)
  have "map (\<lambda>v. c * v) x = rhs"
    using ax dot_scalar [OF lx, of c] by simp
  then have "map (\<lambda>v. v / c) rhs = map (\<lambda>v. c * v / c) x"
    by (auto simp add: comp_def)
  also have "\<dots> = x"
    using c by (simp add: map_idI)
  finally show ?thesis
    using x by simp
qed

lemma march_identity:
  assumes id: "\<And>v. length v = n \<Longrightarrow> step sys v = Inr v"
    and q0: "q ! 0 = qinit" and len: "length qinit = n" and m: "m < length q"
  shows "\<exists>q'. march sys [0..<m] q = Inr q' \<and> length q' = length q
            \<and> (\<forall>i\<le>m. q' ! i = qinit) \<and> (\<forall>j>m. q' ! j = q ! j)"
  using m
proof (induction m)
  case 0
  then show ?case using q0 by simp
next
  case (Suc m)
  then obtain q1 where q1: "march sys [0..<m] q = Inr q1" and l1: "length q1 = length q"
    and low: "\<forall>i\<le>m. q1 ! i = qinit" and high: "\<forall>j>m. q1 ! j = q ! j"
    by auto
  have "step sys (q1 ! m) = Inr qinit"
    using low id [OF len] by simp
  then have run: "march sys [0..<Suc m] q = Inr (q1[Suc m := qinit])"
    using q1 by (simp add: march_append)
  have "(q1[Suc m := qinit]) ! i = qinit" if "i \<le> Suc m" for i
    using that low l1 Suc.prems by (cases "i = Suc m") simp_all
  moreover have "(q1[Suc m := qinit]) ! j = q ! j" if "Suc m < j" for j
    using that high by simp
  ultimately show ?case
    using run l1 by simp
qed

lemma step_scalar:
  assumes c: "c \<noteq> 0" and f: "factorized (circulant_of (\<lambda>\<delta>. if \<delta> = 0 then c else 0) n) = Inr F"
    and v: "length v = n"
  shows "step \<lparr>A0 = circulant_of (\<lambda>\<delta>. if \<delta> = 0 then - c else 0) n,
               A1 = circulant_of (\<lambda>\<delta>. if \<delta> = 0 then c else 0) n, factors = F\<rparr> v = Inr v"
proof -
  have d: "dot (circulant_of (\<lambda>\<delta>. if \<delta> = 0 then - c else 0) n) v = Inr (map (\<lambda>x. - c * x) v)"
    using v by (rule dot_scalar)
  have e: "map uminus (map (\<lambda>x. - c * x) v) = map (\<lambda>x. c * x) v"
    by simp
  have "dot F (map (\<lambda>x. c * x) v) = Inr (map (\<lambda>x. x / c) (map (\<lambda>x. c * x) v))"
    using c f v by (intro solve_scalar) simp_all
  moreover have "map (\<lambda>x. x / c) (map (\<lambda>x. c * x) v) = v"
    using c by (simp add: map_idI)
  ultimately have s: "dot F (map (\<lambda>x. c * x) v) = Inr v"
    by simp
  show ?thesis
    by (simp only: step_def solve_def implicit_system.select_convs d sum.case e s)
qed

lemma identity_case_run:
  assumes nx: "3 \<le> nx" and dx: "dx \<noteq> 0" and dt: "dt \<noteq> 0" and len: "length qinit = nx"
  shows "\<exists>series. serial nx 0 0 dx theta dt qinit nt = Inr series
           \<and> length series = nt + 1 \<and> series ! 0 = qinit
           \<and> (\<forall>i<nt. series ! i = qinit)
           \<and> (0 < nt \<longrightarrow> series ! nt = replicate nx 0)"
proof -
  let ?I = "circulant_of (\<lambda>\<delta>. if \<delta> = 0 then 1 else 0) nx"
  let ?Z = "circulant_of (\<lambda>\<delta>. 0) nx"
  let ?A0 = "circulant_of (\<lambda>\<delta>. if \<delta> = 0 then - (1 / dt) else 0) nx"
  let ?A1 = "circulant_of (\<lambda>\<delta>. if \<delta> = 0 then 1 / dt else 0) nx"
  have M: "sparse_circulant [1] nx = Inr ?I"
    by (simp add: sparse_circulant_single diag_circulant)
  have D: "stencil_matrix 1 2 nx = Inr (circulant_of (wrap_coeff [-1/2, 0, 1/2] nx) nx)"
    using nx sparse_circulant_entries [of "[-1/2, 0, 1/2]" 1 nx]
    by (simp add: stencil_matrix_def gradient_stencil_values)
  have L: "stencil_matrix 2 2 nx = Inr (circulant_of (wrap_coeff [1, -2, 1] nx) nx)"
    using nx sparse_circulant_entries [of "[1, -2, 1]" 1 nx]
    by (simp add: stencil_matrix_def gradient_stencil_values)
  have K: "spatial_terms 0 0 dx (circulant_of (wrap_coeff [-1/2, 0, 1/2] nx) nx)
      (circulant_of (wrap_coeff [1, -2, 1] nx) nx) = Inr ?Z"
    using dx by (simp add: spatial_terms_def scale_circulant msub_circulant)
  have "(\<lambda>\<delta>::int. 1 / dt * (if \<delta> = 0 then 1 else 0) + theta * 0) = (\<lambda>\<delta>. if \<delta> = 0 then 1 / dt else 0)"
    by auto
  then have a1: "madd (scale (1 / dt) ?I) (scale theta ?Z) = ?A1"
    by (simp only: scale_circulant madd_circulant)
  have "(\<lambda>\<delta>::int. - (1 / dt) * (if \<delta> = 0 then 1 else 0) + (1 - theta) * 0)
      = (\<lambda>\<delta>. if \<delta> = 0 then - (1 / dt) else 0)"
    by auto
  then have a0: "madd (scale (- (1 / dt)) ?I) (scale (1 - theta) ?Z) = ?A0"
    by (simp only: scale_circulant madd_circulant)
  have c: "1 / dt \<noteq> 0"
    using dt by simp
  obtain F where F: "factorized ?A1 = Inr F"
    using factorized_nonsingular [OF square_circulant nonsingular_scalar [OF c]] by blast
  let ?sys = "\<lparr>A0 = ?A0, A1 = ?A1, factors = F\<rparr>"
  have sys: "implicit_theta ?I ?Z theta dt = Inr ?sys"
    using implicit_theta_succeeds [OF dt, of ?I theta ?Z F] F unfolding a0 a1 by simp
  have id: "step ?sys v = Inr v" if "length v = nx" for v
    using step_scalar [OF c F that] by simp
  let ?q = "(replicate (nt + 1) (replicate (length qinit) 0))[0 := qinit]"
  have "?q ! 0 = qinit" and "nt - 1 < length ?q"
    by simp_all
  from march_identity [of nx ?sys, OF id this(1) len this(2)]
  obtain series where run: "march ?sys [0..<nt - 1] ?q = Inr series"
    and l: "length series = length ?q"
    and low: "\<forall>i\<le>nt - 1. series ! i = qinit" and high: "\<forall>j>nt - 1. series ! j = ?q ! j"
    by blast
  have "timeseries ?sys qinit nt = Inr series"
    using run by (simp only: timeseries_def)
  then have "serial nx 0 0 dx theta dt qinit nt = Inr series"
    by (simp only: serial_def M D L K sys sum.case)
  moreover have "length series = nt + 1"
    using l by simp
  moreover have "series ! 0 = qinit"
    using low by simp
  moreover have "\<forall>i<nt. series ! i = qinit"
    using low by auto
  moreover have "series ! nt = replicate nx 0" if "0 < nt"
    using high that len by simp
  ultimately show ?thesis
    by blast
qed

subsection \<open>Runs on a mesh of three points\<close>

lemma mass_3: "sparse_circulant [1] 3 = Inr [[1, 0, 0], [0, 1, 0], [0, 0, 1]]"
  by code_simp

lemma advection_3: "stencil_matrix 1 2 3 = Inr [[0, 1/2, -1/2], [-1/2, 0, 1/2], [1/2, -1/2, 0]]"
  by code_simp

lemma diffusion_3: "stencil_matrix 2 2 3 = Inr [[-2, 1, 1], [1, -2, 1], [1, 1, -2]]"
  by code_simp

lemma residual_3: "spatial_terms 1 (1/10) 1 [[0, 1/2, -1/2], [-1/2, 0, 1/2], [1/2, -1/2, 0]]
     [[-2, 1, 1], [1, -2, 1], [1, 1, -2]]
   = Inr [[1/5, 2/5, -3/5], [-3/5, 1/5, 2/5], [2/5, -3/5, 1/5]]"
  by code_simp

lemma residual_zero_3: "spatial_terms 0 0 1 [[0, 1/2, -1/2], [-1/2, 0, 1/2], [1/2, -1/2, 0]]
     [[-2, 1, 1], [1, -2, 1], [1, 1, -2]]
   = Inr [[0, 0, 0], [0, 0, 0], [0, 0, 0]]"
  by code_simp

lemma system_3: "implicit_theta [[1, 0, 0], [0, 1, 0], [0, 0, 1]]
      [[1/5, 2/5, -3/5], [-3/5, 1/5, 2/5], [2/5, -3/5, 1/5]] (1/2) 1
    = Inr \<lparr>A0 = [[-9/10, 1/5, -3/10], [-3/10, -9/10, 1/5], [1/5, -3/10, -9/10]],
            A1 = [[11/10, 1/5, -3/10], [-3/10, 11/10, 1/5], [1/5, -3/10, 11/10]],
            factors = [[127/151, -13/151, 37/151], [37/151, 127/151, -13/151],
                       [-13/151, 37/151, 127/151]]\<rparr>"
  by code_simp

lemma system_zero_3: "implicit_theta [[1, 0, 0], [0, 1, 0], [0, 0, 1]]
      [[0, 0, 0], [0, 0, 0], [0, 0, 0]] (1/2) 1
    = Inr \<lparr>A0 = [[-1, 0, 0], [0, -1, 0], [0, 0, -1]],
            A1 = [[1, 0, 0], [0, 1, 0], [0, 0, 1]],
            factors = [[1, 0, 0], [0, 1, 0], [0, 0, 1]]\<rparr>"
  by code_simp

lemma run_zero_3: "timeseries \<lparr>A0 = [[-1, 0, 0], [0, -1, 0], [0, 0, -1]],
            A1 = [[1, 0, 0], [0, 1, 0], [0, 0, 1]],
            factors = [[1, 0, 0], [0, 1, 0], [0, 0, 1]]\<rparr> [1, 2, 3] 3
   = Inr [[1, 2, 3], [1, 2, 3], [1, 2, 3], [0, 0, 0]]"
  by code_simp

lemma run_3: "timeseries
        \<lparr>A0 = [[-9/10, 1/5, -3/10], [-3/10, -9/10, 1/5], [1/5, -3/10, -9/10]],
         A1 = [[11/10, 1/5, -3/10], [-3/10, 11/10, 1/5], [1/5, -3/10, 11/10]],
         factors = [[127/151, -13/151, 37/151], [37/151, 127/151, -13/151],
                    [-13/151, 37/151, 127/151]]\<rparr> [1, 2, 3] 1
    = Inr [[1, 2, 3], [0, 0, 0]]"
  by code_simp

lemma serial_zero_3: "serial 3 0 0 1 (1/2) 1 [1, 2, 3] 3 = Inr [[1, 2, 3], [1, 2, 3], [1, 2, 3], [0, 0, 0]]"
  by (simp only: serial_def mass_3 advection_3 diffusion_3 residual_zero_3 system_zero_3 run_zero_3 sum.case)

lemma serial_3: "serial 3 1 (1/10) 1 (1/2) 1 [1, 2, 3] 1 = Inr [[1, 2, 3], [0, 0, 0]]"
  by (simp only: serial_def mass_3 advection_3 diffusion_3 residual_3 system_3 run_3 sum.case)

lemma step_3: "step
        \<lparr>A0 = [[-9/10, 1/5, -3/10], [-3/10, -9/10, 1/5], [1/5, -3/10, -9/10]],
         A1 = [[11/10, 1/5, -3/10], [-3/10, 11/10, 1/5], [1/5, -3/10, 11/10]],
         factors = [[127/151, -13/151, 37/151], [37/151, 127/151, -13/151],
                    [-13/151, 37/151, 127/151]]\<rparr> [1, 2, 3]
    = Inr [273/151, 202/151, 431/151]"
  by code_simp

text \<open>
  Claim C1.  The run is to return \<open>nt + 1\<close> states with \<open>series[0] = q0\<close> and
  \<open>series[i+1] = solve(-(A0 series[i]))\<close> for every \<open>i\<close> from \<open>0\<close> to \<open>nt - 1\<close>.
  The loop of the notebook is \<^verbatim>\<open>for i in range(nt-1)\<close>: it makes \<open>nt - 1\<close> steps,
  and the last row keeps the zeros it was allocated with (lemma
  \<open>timeseries_recurrence\<close>).  On a mesh of three points with \<open>u = 1\<close>,
  \<open>nu = 1/10\<close>, \<open>dx = 1\<close>, \<open>theta = 1/2\<close>, \<open>dt = 1\<close>, initial state \<open>[1, 2, 3]\<close> and
  \<open>nt = 1\<close> the run returns \<open>[[1, 2, 3], [0, 0, 0]]\<close>, while one step from the initial
  state is \<open>[273/151, 202/151, 431/151]\<close>.
\<close>

theorem C1_final_state_not_computed:
  "serial 3 1 (1/10) 1 (1/2) 1 [1, 2, 3] 1 = Inr [[1, 2, 3], [0, 0, 0]]
   \<and> implicit_theta [[1, 0, 0], [0, 1, 0], [0, 0, 1]]
        [[1/5, 2/5, -3/5], [-3/5, 1/5, 2/5], [2/5, -3/5, 1/5]] (1/2) 1
     = Inr \<lparr>A0 = [[-9/10, 1/5, -3/10], [-3/10, -9/10, 1/5], [1/5, -3/10, -9/10]],
         A1 = [[11/10, 1/5, -3/10], [-3/10, 11/10, 1/5], [1/5, -3/10, 11/10]],
         factors = [[127/151, -13/151, 37/151], [37/151, 127/151, -13/151],
                    [-13/151, 37/151, 127/151]]\<rparr>
   \<and> step
        \<lparr>A0 = [[-9/10, 1/5, -3/10], [-3/10, -9/10, 1/5], [1/5, -3/10, -9/10]],
         A1 = [[11/10, 1/5, -3/10], [-3/10, 11/10, 1/5], [1/5, -3/10, 11/10]],
         factors = [[127/151, -13/151, 37/151], [37/151, 127/151, -13/151],
                    [-13/151, 37/151, 127/151]]\<rparr> [1, 2, 3]
     = Inr [273/151, 202/151, 431/151]"
  by (intro conjI) (rule serial_3, rule system_3, rule step_3)

text \<open>
  Claim C2.  With \<open>u = 0\<close> and \<open>nu = 0\<close> every state of the series is to equal the
  initial state.  The steps that the loop makes do leave the state unchanged, but
  the last row is never computed: on a mesh of three points with \<open>dx = 1\<close>,
  \<open>theta = 1/2\<close>, \<open>dt = 1\<close>, initial state \<open>[1, 2, 3]\<close> and \<open>nt = 3\<close> the last state of
  the run is the zero vector.
\<close>

theorem C2_final_state_zero:
  "serial 3 0 0 1 (1/2) 1 [1, 2, 3] 3 = Inr [[1, 2, 3], [1, 2, 3], [1, 2, 3], [0, 0, 0]]"
  by (rule serial_zero_3)

end
